theory Spec2Isabelle
  imports Main
begin

section \<open>Text, lines and whitespace\<close>

text \<open>
  The script works on Python \<^verbatim>\<open>str\<close> values, which are sequences of Unicode code
  points. A code point is a natural number here, a text is a list of them, and
  \<open>str\<close> turns an ASCII literal into a text.
\<close>

type_synonym codepoint = nat
type_synonym utext = "codepoint list"

definition str :: "string \<Rightarrow> utext" where
  "str s = map of_char s"

definition LF :: codepoint where
  "LF = 10"

definition CR :: codepoint where
  "CR = 13"

text \<open>
  \<^verbatim>\<open>str.strip()\<close> without an argument removes the characters for which
  \<^verbatim>\<open>str.isspace\<close> holds: U+0009..U+000D, U+001C..U+0020, U+0085, U+00A0, U+1680,
  U+2000..U+200A, U+2028, U+2029, U+202F, U+205F and U+3000.
\<close>

definition isspace :: "codepoint \<Rightarrow> bool" where
  "isspace c =
     ((9 \<le> c \<and> c \<le> 13) \<or> (28 \<le> c \<and> c \<le> 32) \<or> c = 133 \<or> c = 160 \<or> c = 5760
      \<or> (8192 \<le> c \<and> c \<le> 8202) \<or> c = 8232 \<or> c = 8233 \<or> c = 8239 \<or> c = 8287
      \<or> c = 12288)"

definition strip :: "utext \<Rightarrow> utext" where
  "strip s = rev (dropWhile isspace (rev (dropWhile isspace s)))"

definition startswith :: "utext \<Rightarrow> utext \<Rightarrow> bool" where
  "startswith s p = (take (length p) s = p)"

text \<open>
  The file is opened in text mode with the default \<^verbatim>\<open>newline=None\<close>: on reading,
  \<^verbatim>\<open>\r\n\<close> and a lone \<^verbatim>\<open>\r\<close> both arrive as \<^verbatim>\<open>\n\<close>.
\<close>

fun universal_newlines :: "utext \<Rightarrow> utext" where
  "universal_newlines [] = []"
| "universal_newlines [c] = (if c = CR then [LF] else [c])"
| "universal_newlines (c # d # cs) =
     (if c = CR then
        (if d = LF then LF # universal_newlines cs else LF # universal_newlines (d # cs))
      else c # universal_newlines (d # cs))"

text \<open>
  \<^verbatim>\<open>f.readlines()\<close> cuts the text after every \<^verbatim>\<open>\n\<close>; each line keeps its
  terminator, and only the last line can be without one.
\<close>

fun split_lines :: "utext \<Rightarrow> utext list" where
  "split_lines [] = []"
| "split_lines (c # cs) =
     (if c = LF then [c] # split_lines cs
      else (case split_lines cs of
              [] \<Rightarrow> [[c]]
            | l # ls \<Rightarrow> (c # l) # ls))"

definition readlines :: "utext \<Rightarrow> utext list" where
  "readlines raw = split_lines (universal_newlines raw)"

section \<open>Regular expressions of the script\<close>

text \<open>
  The two patterns of \<^verbatim>\<open>find_first_image\<close> use literal characters, the dot, character
  sets, the lazy star, the greedy plus and one capture group. The matcher below is the
  backtracking search of Python's \<^verbatim>\<open>re\<close> for this fragment: a lazy star first tries
  to go on with the rest of the pattern and takes one more character only when that
  fails; a greedy repetition takes as many characters as it can and gives them back one
  at a time. The capture is kept as the pair of the inputs that remained when the group
  was opened and closed.
\<close>

datatype cclass =
    Lit codepoint
  | Dot
  | OneOf "codepoint list"
  | NoneOf "codepoint list"

fun cmatch :: "cclass \<Rightarrow> codepoint \<Rightarrow> bool" where
  "cmatch (Lit a) c = (c = a)"
| "cmatch Dot c = (c \<noteq> LF)"
| "cmatch (OneOf as) c = (c \<in> set as)"
| "cmatch (NoneOf as) c = (c \<notin> set as)"

datatype item =
    Single cclass
  | LazyStar cclass
  | GreedyStar cclass
  | GreedyPlus cclass
  | GroupStart
  | GroupEnd

type_synonym capture = "utext \<times> utext"

fun rmatch :: "item list \<Rightarrow> utext \<Rightarrow> capture \<Rightarrow> capture option" where
  "rmatch [] s cap = Some cap"
| "rmatch (Single c # r) [] cap = None"
| "rmatch (Single c # r) (x # xs) cap = (if cmatch c x then rmatch r xs cap else None)"
| "rmatch (LazyStar c # r) [] cap = rmatch r [] cap"
| "rmatch (LazyStar c # r) (x # xs) cap =
     (case rmatch r (x # xs) cap of
        Some m \<Rightarrow> Some m
      | None \<Rightarrow> if cmatch c x then rmatch (LazyStar c # r) xs cap else None)"
| "rmatch (GreedyStar c # r) [] cap = rmatch r [] cap"
| "rmatch (GreedyStar c # r) (x # xs) cap =
     (if cmatch c x then
        (case rmatch (GreedyStar c # r) xs cap of
           Some m \<Rightarrow> Some m
         | None \<Rightarrow> rmatch r (x # xs) cap)
      else rmatch r (x # xs) cap)"
| "rmatch (GreedyPlus c # r) [] cap = None"
| "rmatch (GreedyPlus c # r) (x # xs) cap =
     (if cmatch c x then rmatch (GreedyStar c # r) xs cap else None)"
| "rmatch (GroupStart # r) s cap = rmatch r s (s, snd cap)"
| "rmatch (GroupEnd # r) s cap = rmatch r s (fst cap, s)"

text \<open>\<^verbatim>\<open>re.search\<close>: the match at the leftmost position that has one.\<close>

fun research :: "item list \<Rightarrow> utext \<Rightarrow> capture option" where
  "research p [] = rmatch p [] ([], [])"
| "research p (x # xs) =
     (case rmatch p (x # xs) ([], []) of
        Some m \<Rightarrow> Some m
      | None \<Rightarrow> research p xs)"

text \<open>\<^verbatim>\<open>m.group(1)\<close>: the text between the two ends of the group.\<close>

definition group1 :: "capture \<Rightarrow> utext" where
  "group1 m = take (length (fst m) - length (snd m)) (fst m)"

definition lits :: "string \<Rightarrow> item list" where
  "lits s = map (\<lambda>c. Single (Lit (of_char c))) s"

text \<open>\<^verbatim>\<open>r'!\[.*?\]\((.*?)\)'\<close>\<close>

definition md_pattern :: "item list" where
  "md_pattern =
     lits ''!['' @ [LazyStar Dot] @ lits '']('' @ [GroupStart, LazyStar Dot, GroupEnd]
     @ lits '')''"

text \<open>\<^verbatim>\<open>r'<img[^>]+src=["\']([^"\']+)["\']'\<close>\<close>

definition html_pattern :: "item list" where
  "html_pattern =
     lits ''<img'' @ [GreedyPlus (NoneOf (str ''>''))] @ lits ''src=''
     @ [Single (OneOf (str [CHR 0x22, CHR 0x27])), GroupStart,
        GreedyPlus (NoneOf (str [CHR 0x22, CHR 0x27])), GroupEnd,
        Single (OneOf (str [CHR 0x22, CHR 0x27]))]"

section \<open>The script\<close>

definition DEFAULT_IMAGE :: utext where
  "DEFAULT_IMAGE = str ''/assets/favicon/android-chrome-512x512.png''"

definition md_search :: "utext \<Rightarrow> utext option" where
  "md_search content = map_option group1 (research md_pattern content)"

definition html_search :: "utext \<Rightarrow> utext option" where
  "html_search content = map_option group1 (research html_pattern content)"

definition find_first_image :: "utext \<Rightarrow> utext option" where
  "find_first_image content =
     (case md_search content of
        Some url \<Rightarrow> Some url
      | None \<Rightarrow>
          (case html_search content of
             Some url \<Rightarrow> Some url
           | None \<Rightarrow> None))"

definition marker :: utext where
  "marker = str ''---''"

text \<open>
  The \<^verbatim>\<open>for ... else\<close> loop over \<^verbatim>\<open>enumerate(lines[1:], 1)\<close>: the index of the first
  line that strips to the marker, or nothing when the loop runs to its end.
\<close>

fun find_end_idx :: "utext list \<Rightarrow> nat \<Rightarrow> nat option" where
  "find_end_idx [] i = None"
| "find_end_idx (line # rest) i =
     (if strip line = marker then Some i else find_end_idx rest (Suc i))"

definition has_image :: "utext list \<Rightarrow> bool" where
  "has_image frontmatter = list_ex (\<lambda>line. startswith (strip line) (str ''image:'')) frontmatter"

definition is_title :: "utext \<Rightarrow> bool" where
  "is_title line = startswith (strip line) (str ''title:'')"

definition image_line :: "utext \<Rightarrow> utext" where
  "image_line image_url = str ''image: '' @ image_url @ [LF]"

text \<open>
  The loop that builds \<^verbatim>\<open>new_frontmatter\<close>; the flag \<^verbatim>\<open>image_inserted\<close> is the
  third argument.
\<close>

fun insert_image :: "utext list \<Rightarrow> utext \<Rightarrow> bool \<Rightarrow> utext list" where
  "insert_image [] image_url image_inserted = []"
| "insert_image (line # rest) image_url image_inserted =
     (if is_title line \<and> \<not> image_inserted
      then line # image_line image_url # insert_image rest image_url True
      else line # insert_image rest image_url image_inserted)"

text \<open>
  \<^verbatim>\<open>find_first_image(body) or DEFAULT_IMAGE\<close>: \<^verbatim>\<open>None\<close> and the empty string are both
  false in Python, so both give the default.
\<close>

definition resolve_image :: "utext \<Rightarrow> utext" where
  "resolve_image body =
     (case find_first_image body of
        None \<Rightarrow> DEFAULT_IMAGE
      | Some url \<Rightarrow> if url = [] then DEFAULT_IMAGE else url)"

text \<open>
  Lines 21 to 34 of the script: the two early returns are \<open>None\<close>; otherwise the three
  values \<^verbatim>\<open>frontmatter\<close>, \<^verbatim>\<open>closing\<close> and \<^verbatim>\<open>body\<close>. The index \<open>end_idx\<close> comes
  from the loop, so \<open>lines ! end_idx\<close> is in range.
\<close>

definition parse_frontmatter :: "utext list \<Rightarrow> (utext list \<times> utext \<times> utext) option" where
  "parse_frontmatter lines =
     (if lines = [] \<or> \<not> startswith (strip (hd lines)) marker then None
      else (case find_end_idx (drop 1 lines) 1 of
              None \<Rightarrow> None
            | Some end_idx \<Rightarrow>
                Some (take end_idx lines, lines ! end_idx, concat (drop (end_idx + 1) lines))))"

text \<open>
  \<^verbatim>\<open>add_image_to_frontmatter\<close>, with the content of the file at \<^verbatim>\<open>filepath\<close> as the
  state: the function takes the content and returns the result together with the
  content afterwards. The file is written on a POSIX system, where \<^verbatim>\<open>\n\<close> is written
  as it is.
\<close>

definition add_image_to_frontmatter :: "utext \<Rightarrow> bool \<times> utext" where
  "add_image_to_frontmatter raw =
     (case parse_frontmatter (readlines raw) of
        None \<Rightarrow> (False, raw)
      | Some (frontmatter, closing, body) \<Rightarrow>
          if has_image frontmatter then (False, raw)
          else
            (let image_url = resolve_image body;
                 new_frontmatter = insert_image frontmatter image_url False
             in (True, concat new_frontmatter @ closing @ [LF] @ body)))"

section \<open>Predicates used in the statements\<close>

text \<open>A line as \<^verbatim>\<open>readlines\<close> returns it when it is not the last one: one \<^verbatim>\<open>\n\<close>, at the end.\<close>

definition terminated :: "utext \<Rightarrow> bool" where
  "terminated l = (l \<noteq> [] \<and> last l = LF \<and> LF \<notin> set (butlast l))"

text \<open>Some line of the front matter makes the test of the insertion loop true.\<close>

definition has_title :: "utext list \<Rightarrow> bool" where
  "has_title frontmatter = list_ex is_title frontmatter"

text \<open>The two quote characters of the tag pattern.\<close>

definition quote :: "codepoint \<Rightarrow> bool" where
  "quote c = (c = 34 \<or> c = 39)"

text \<open>The part of the tag pattern that follows \<^verbatim>\<open>src=\<close>: quote, group, quote.\<close>

abbreviation tag_tail :: "item list" where
  "tag_tail \<equiv>
     [Single (OneOf (str [CHR 0x22, CHR 0x27])), GroupStart,
      GreedyPlus (NoneOf (str [CHR 0x22, CHR 0x27])), GroupEnd,
      Single (OneOf (str [CHR 0x22, CHR 0x27]))]"

section \<open>Facts about stripping and line splitting\<close>

text \<open>
  Stripping keeps a prefix that starts and ends with a character that is not white
  space; \<open>split_lines\<close> is undone by \<open>concat\<close>, and cuts a text that starts with
  terminated lines into those lines and the lines of the rest.
\<close>

lemma strip_keeps_prefix:
  assumes "p \<noteq> []" and "\<not> isspace (hd p)" and "\<not> isspace (last p)"
  shows "startswith (strip (p @ s)) p"
proof -
  from assms(1,2) have d: "dropWhile isspace (p @ s) = p @ s"
    by (cases p) simp_all
  from assms(1,3) have r: "dropWhile isspace (rev p) = rev p"
    by (cases p rule: rev_cases) simp_all
  have "\<exists>x. dropWhile isspace (rev s @ rev p) = x @ rev p"
    by (simp add: dropWhile_append r)
  then obtain x where "dropWhile isspace (rev s @ rev p) = x @ rev p" ..
  with d have "strip (p @ s) = p @ rev x"
    by (simp add: strip_def)
  then show ?thesis
    by (simp add: startswith_def)
qed

lemma concat_split_lines: "concat (split_lines s) = s"
  by (induction s) (auto split: list.splits)

lemma split_lines_line:
  "LF \<notin> set l \<Longrightarrow> split_lines (l @ LF # t) = (l @ [LF]) # split_lines t"
  by (induction l) auto

lemma terminated_split: "terminated l \<Longrightarrow> split_lines (l @ t) = l # split_lines t"
proof -
  assume "terminated l"
  then have "l = butlast l @ [LF]" and "LF \<notin> set (butlast l)"
    by (auto simp: terminated_def dest: append_butlast_last_id)
  then show ?thesis
    using split_lines_line [of "butlast l" t] by (metis append.assoc append_Cons append_Nil)
qed

lemma split_lines_concat:
  "\<forall>l \<in> set ls. terminated l \<Longrightarrow> split_lines (concat ls @ t) = ls @ split_lines t"
  by (induction ls) (simp_all add: terminated_split)

lemma split_lines_terminated:
  "split_lines s = ls @ [l'] \<Longrightarrow> l \<in> set ls \<Longrightarrow> terminated l"
proof (induction s arbitrary: ls l' l)
  case Nil
  then show ?case by simp
next
  case (Cons c cs)
  show ?case
  proof (cases "c = LF")
    case True
    with Cons.prems have eq: "[LF] # split_lines cs = ls @ [l']" by simp
    show ?thesis
    proof (cases ls)
      case Nil
      with Cons.prems show ?thesis by simp
    next
      case (Cons k ks)
      with eq have k: "k = [LF]" and rest: "split_lines cs = ks @ [l']" by simp_all
      from Cons.prems(2) Cons have "l = k \<or> l \<in> set ks" by auto
      then show ?thesis
      proof
        assume "l = k"
        with k show ?thesis by (simp add: terminated_def)
      next
        assume "l \<in> set ks"
        with Cons.IH [OF rest] show ?thesis .
      qed
    qed
  next
    case False
    show ?thesis
    proof (cases "split_lines cs")
      case Nil
      with False Cons.prems show ?thesis by simp
    next
      case (Cons m ms)
      with False Cons.prems(1) have eq: "(c # m) # ms = ls @ [l']" by simp
      show ?thesis
      proof (cases ls)
        case Nil
        with Cons.prems show ?thesis by simp
      next
        case (Cons k ks) note lsk = this
        with eq have k: "k = c # m" and ms: "ms = ks @ [l']" by simp_all
        with \<open>split_lines cs = m # ms\<close> have sp: "split_lines cs = (m # ks) @ [l']" by simp
        from Cons.prems(2) lsk have "l = k \<or> l \<in> set ks" by auto
        then show ?thesis
        proof
          assume "l = k"
          moreover from Cons.IH [OF sp, of m] have "terminated m" by simp
          ultimately show ?thesis using k False
            by (auto simp: terminated_def split: if_splits)
        next
          assume "l \<in> set ks"
          with Cons.IH [OF sp, of l] show ?thesis by simp
        qed
      qed
    qed
  qed
qed

section \<open>Facts about the parser, the insertion loop and the matcher\<close>

text \<open>
  The loop for the closing marker returns the position of the first line that strips
  to the marker; the parser therefore cuts the lines into the front matter, the closing
  line and the rest.
\<close>

lemma find_end_idx_Some:
  "find_end_idx ls i = Some e \<Longrightarrow>
     \<exists>a m b. ls = a @ m # b \<and> e = i + length a \<and> strip m = marker
       \<and> (\<forall>l \<in> set a. strip l \<noteq> marker)"
proof (induction ls arbitrary: i)
  case Nil
  then show ?case by simp
next
  case (Cons l ls)
  show ?case
  proof (cases "strip l = marker")
    case True
    with Cons.prems have "e = i" by simp
    with True have "l # ls = [] @ l # ls \<and> e = i + length ([]::utext list) \<and> strip l = marker
        \<and> (\<forall>l \<in> set ([]::utext list). strip l \<noteq> marker)"
      by simp
    then show ?thesis by blast
  next
    case False
    with Cons.prems have "find_end_idx ls (Suc i) = Some e" by simp
    from Cons.IH [OF this] obtain a m b where
      "ls = a @ m # b" "e = Suc i + length a" "strip m = marker" "\<forall>l \<in> set a. strip l \<noteq> marker"
      by blast
    with False have "l # ls = (l # a) @ m # b \<and> e = i + length (l # a) \<and> strip m = marker
        \<and> (\<forall>k \<in> set (l # a). strip k \<noteq> marker)"
      by simp
    then show ?thesis by blast
  qed
qed

lemma find_end_idx_first:
  "strip m = marker \<Longrightarrow> \<forall>l \<in> set a. strip l \<noteq> marker \<Longrightarrow>
     find_end_idx (a @ m # b) i = Some (i + length a)"
  by (induction a arbitrary: i) simp_all

lemma parse_frontmatter_Some:
  assumes "parse_frontmatter lines = Some (fm, cl, body)"
  shows "\<exists>rest. lines = fm @ cl # rest \<and> body = concat rest \<and> fm \<noteq> []
           \<and> startswith (strip (hd fm)) marker \<and> strip cl = marker
           \<and> (\<forall>l \<in> set (tl fm). strip l \<noteq> marker)"
proof -
  from assms have ne: "lines \<noteq> []" and st: "startswith (strip (hd lines)) marker"
    by (auto simp: parse_frontmatter_def split: if_splits)
  then obtain l0 ls where lines: "lines = l0 # ls" by (cases lines) auto
  from assms ne st obtain e where fe: "find_end_idx (drop 1 lines) 1 = Some e"
    and res: "fm = take e lines" "cl = lines ! e" "body = concat (drop (e + 1) lines)"
    by (auto simp: parse_frontmatter_def split: if_splits option.splits)
  from fe lines have "find_end_idx ls 1 = Some e" by simp
  from find_end_idx_Some [OF this] obtain a m b where
    ls: "ls = a @ m # b" and e: "e = 1 + length a" and m: "strip m = marker"
    and a: "\<forall>l \<in> set a. strip l \<noteq> marker"
    by blast
  from lines ls have l: "lines = (l0 # a) @ m # b" by simp
  from e have len: "e = length (l0 # a)" by simp
  have "fm = l0 # a" unfolding res l len by simp
  moreover have "cl = m" unfolding res l len by (simp only: nth_append_length)
  moreover have "body = concat b" unfolding res l len by simp
  ultimately show ?thesis using l m a st lines by auto
qed

lemma parse_frontmatter_intro:
  assumes "fm \<noteq> []" and "startswith (strip (hd fm)) marker" and "strip cl = marker"
    and "\<forall>l \<in> set (tl fm). strip l \<noteq> marker"
  shows "parse_frontmatter (fm @ cl # rest) = Some (fm, cl, concat rest)"
proof -
  from assms(1) obtain l0 a where fm: "fm = l0 # a" by (cases fm) auto
  with assms(4) have "find_end_idx (a @ cl # rest) 1 = Some (1 + length a)"
    using find_end_idx_first [OF assms(3), of a rest 1] by simp
  with fm assms(2) show ?thesis
    by (simp add: parse_frontmatter_def nth_append)
qed

text \<open>The insertion loop, by the position of the first title line.\<close>

lemma insert_image_done: "insert_image fm url True = fm"
  by (induction fm) simp_all

lemma insert_image_no_title:
  "\<forall>l \<in> set fm. \<not> is_title l \<Longrightarrow> insert_image fm url b = fm"
  by (induction fm) simp_all

lemma insert_image_first_title:
  "is_title t \<Longrightarrow> \<forall>l \<in> set a. \<not> is_title l \<Longrightarrow>
     insert_image (a @ t # b) url False = a @ t # image_line url # b"
  by (induction a) (simp_all add: insert_image_done)

text \<open>No carriage return is left after reading.\<close>

lemma universal_newlines_no_CR: "CR \<notin> set (universal_newlines s)"
  by (induction s rule: universal_newlines.induct) (auto simp: LF_def CR_def)

lemma universal_newlines_id: "CR \<notin> set s \<Longrightarrow> universal_newlines s = s"
  by (induction s rule: universal_newlines.induct) auto

text \<open>A captured group is made of characters of the searched text.\<close>

lemma rmatch_capture_subset:
  "rmatch p s cap = Some m \<Longrightarrow>
     set (fst m) \<subseteq> set (fst cap) \<union> set s \<and> set (snd m) \<subseteq> set (snd cap) \<union> set s"
proof (induction p s cap rule: rmatch.induct)
  case (5 c r x xs cap)
  then show ?case by (fastforce split: option.splits if_splits)
next
  case (7 c r x xs cap)
  then show ?case by (fastforce split: option.splits if_splits)
qed (fastforce split: option.splits if_splits)+

lemma research_capture_subset:
  "research p s = Some m \<Longrightarrow> set (fst m) \<subseteq> set s \<and> set (snd m) \<subseteq> set s"
proof (induction s)
  case Nil
  then show ?case using rmatch_capture_subset [of p "[]" "([], [])" m] by simp
next
  case (Cons x xs)
  show ?case
  proof (cases "rmatch p (x # xs) ([], [])")
    case None
    with Cons show ?thesis by auto
  next
    case (Some m')
    with Cons.prems have "m' = m" by simp
    with Some rmatch_capture_subset [of p "x # xs" "([], [])" m] show ?thesis by simp
  qed
qed

lemma group1_subset: "research p s = Some m \<Longrightarrow> set (group1 m) \<subseteq> set s"
  using research_capture_subset [of p s m] set_take_subset [of _ "fst m"]
  unfolding group1_def by blast

lemma find_first_image_subset: "find_first_image s = Some u \<Longrightarrow> set u \<subseteq> set s"
  by (auto simp: find_first_image_def md_search_def html_search_def
      split: option.splits dest: group1_subset)

section \<open>A second run\<close>

text \<open>
  After a rewrite with a title line, the text of the file holds a line that starts with
  \<^verbatim>\<open>image:\<close> before any line that strips to the marker, so the next run stops at the
  test for an existing image field. This also holds when the URL taken from an
  \<^verbatim>\<open><img>\<close> tag spans several lines.
\<close>

lemma eligible_input:
  assumes "parse_frontmatter (readlines raw) = Some (fm, cl, body)"
  shows "universal_newlines raw = concat fm @ cl @ body"
    and "\<forall>l \<in> set fm. terminated l"
proof -
  from parse_frontmatter_Some [OF assms] obtain rest where
    l: "readlines raw = fm @ cl # rest" and b: "body = concat rest"
    by blast
  have "concat (readlines raw) = universal_newlines raw"
    by (simp add: readlines_def concat_split_lines)
  with l b show "universal_newlines raw = concat fm @ cl @ body" by simp
  from l have "split_lines (universal_newlines raw) = (fm @ butlast (cl # rest)) @ [last (cl # rest)]"
    by (simp add: readlines_def)
  from split_lines_terminated [OF this] show "\<forall>l \<in> set fm. terminated l" by simp
qed

lemma add_image_rewrites:
  assumes "parse_frontmatter (readlines raw) = Some (fm, cl, body)" and "\<not> has_image fm"
  shows "add_image_to_frontmatter raw =
           (True, concat (insert_image fm (resolve_image body) False) @ cl @ [LF] @ body)"
  using assms by (simp add: add_image_to_frontmatter_def)

lemma resolve_image_no_CR:
  assumes "CR \<notin> set body"
  shows "CR \<notin> set (resolve_image body)"
proof (cases "find_first_image body")
  case None
  then show ?thesis by (simp add: resolve_image_def DEFAULT_IMAGE_def str_def CR_def)
next
  case (Some u)
  from find_first_image_subset [OF this] assms have "CR \<notin> set u" by blast
  with Some show ?thesis by (simp add: resolve_image_def DEFAULT_IMAGE_def str_def CR_def)
qed

lemma first_line_of_image_line:
  "\<exists>u R'. image_line url @ R = (str ''image:'' @ 32 # u @ [LF]) @ R' \<and> LF \<notin> set u"
proof -
  let ?P = "\<lambda>c. c \<noteq> LF"
  have split: "url = takeWhile ?P url @ dropWhile ?P url" by simp
  have notin: "LF \<notin> set (takeWhile ?P url)" using set_takeWhileD by fastforce
  show ?thesis
  proof (cases "dropWhile ?P url")
    case Nil
    with split have "url = takeWhile ?P url" by simp
    then have "image_line url @ R = (str ''image:'' @ 32 # takeWhile ?P url @ [LF]) @ R"
      by (simp add: image_line_def str_def)
    with notin show ?thesis by blast
  next
    case (Cons d ds)
    with hd_dropWhile [of ?P url] have "d = LF" by auto
    with Cons split have "url = takeWhile ?P url @ LF # ds" by simp
    then have "image_line url @ R = str ''image:'' @ 32 # (takeWhile ?P url @ LF # ds) @ [LF] @ R"
      by (simp add: image_line_def str_def)
    then have "image_line url @ R = (str ''image:'' @ 32 # takeWhile ?P url @ [LF]) @ (ds @ [LF] @ R)"
      by simp
    with notin show ?thesis by blast
  qed
qed

lemma image_prefix_kept: "startswith (strip (str ''image:'' @ s)) (str ''image:'')"
  by (rule strip_keeps_prefix) (simp_all add: str_def isspace_def)

lemma image_prefix_not_marker: "strip (str ''image:'' @ s) \<noteq> marker"
proof
  assume "strip (str ''image:'' @ s) = marker"
  with image_prefix_kept [of s] have "startswith marker (str ''image:'')" by simp
  then show False by (simp add: startswith_def marker_def str_def)
qed


lemma second_run_skips:
  assumes p: "parse_frontmatter (readlines raw) = Some (fm, cl, body)"
    and ni: "\<not> has_image fm" and ht: "has_title fm"
  shows "add_image_to_frontmatter (snd (add_image_to_frontmatter raw))
           = (False, snd (add_image_to_frontmatter raw))"
proof -
  from parse_frontmatter_Some [OF p] have nomark: "\<forall>l \<in> set (tl fm). strip l \<noteq> marker"
    and fmne: "fm \<noteq> []" by blast+
  from ht have "\<exists>l \<in> set fm. is_title l"
    by (simp add: has_title_def list_ex_iff)
  from split_list_first_prop [OF this] obtain a t b where fm: "fm = a @ t # b"
    and t: "is_title t" and a: "\<forall>l \<in> set a. \<not> is_title l"
    by blast
  define url where "url = resolve_image body"
  define out where "out = concat (a @ [t]) @ image_line url @ concat b @ cl @ [LF] @ body"
  have "insert_image fm url False = a @ t # image_line url # b"
    unfolding fm by (rule insert_image_first_title [OF t a])
  with add_image_rewrites [OF p ni] have run1: "add_image_to_frontmatter raw = (True, out)"
    by (simp add: url_def out_def)
  have input: "universal_newlines raw = concat fm @ cl @ body"
    and trm: "\<forall>l \<in> set fm. terminated l"
    using eligible_input [OF p] by blast+
  have "CR \<notin> set (universal_newlines raw)" by (rule universal_newlines_no_CR)
  with input have cr: "CR \<notin> set (concat fm)" "CR \<notin> set cl" "CR \<notin> set body" by auto
  from resolve_image_no_CR [OF cr(3)] have "CR \<notin> set (image_line url)"
    by (simp add: url_def image_line_def str_def CR_def LF_def)
  with cr have "CR \<notin> set out"
    by (auto simp: out_def fm CR_def LF_def)
  then have rl: "readlines out = split_lines out"
    by (simp add: readlines_def universal_newlines_id)
  obtain u R' where
    il: "image_line url @ (concat b @ cl @ [LF] @ body) = (str ''image:'' @ 32 # u @ [LF]) @ R'"
    and u: "LF \<notin> set u"
    using first_line_of_image_line by blast
  define I where "I = str ''image:'' @ 32 # u @ [LF]"
  have "LF \<notin> set (str ''image:'' @ 32 # u)" using u by (simp add: str_def LF_def)
  from split_lines_line [OF this, of R']
  have one: "split_lines (I @ R') = I # split_lines R'" by (simp add: I_def)
  from trm fm have "\<forall>l \<in> set (a @ [t]). terminated l" by simp
  from split_lines_concat [OF this, of "I @ R'"]
  have two: "split_lines (concat (a @ [t]) @ I @ R') = (a @ [t]) @ split_lines (I @ R')" .
  have "out = concat (a @ [t]) @ I @ R'"
    unfolding out_def I_def using il by simp
  with one two rl have lines2: "readlines out = (a @ [t]) @ I # split_lines R'"
    by simp
  have Iimg: "startswith (strip I) (str ''image:'')"
    unfolding I_def by (rule image_prefix_kept)
  have Inm: "strip I \<noteq> marker"
    unfolding I_def by (rule image_prefix_not_marker)
  have "add_image_to_frontmatter out = (False, out)"
  proof (cases "parse_frontmatter (readlines out)")
    case None
    then show ?thesis by (simp add: add_image_to_frontmatter_def)
  next
    case (Some r)
    then obtain fm' cl' body' where r: "parse_frontmatter (readlines out) = Some (fm', cl', body')"
      by (cases r) auto
    from parse_frontmatter_Some [OF r] obtain rest' where
      l': "readlines out = fm' @ cl' # rest'" and ne': "fm' \<noteq> []"
      and cl': "strip cl' = marker"
      by blast
    from l' lines2 have "(a @ [t]) @ I # split_lines R' = fm' @ cl' # rest'" by simp
    then obtain us where
      "(a @ [t] = fm' @ us \<and> us @ I # split_lines R' = cl' # rest')
        \<or> ((a @ [t]) @ us = fm' \<and> I # split_lines R' = us @ cl' # rest')"
      unfolding append_eq_append_conv2 by blast
    then have "I \<in> set fm'"
    proof
      assume c1: "a @ [t] = fm' @ us \<and> us @ I # split_lines R' = cl' # rest'"
      show ?thesis
      proof (cases us)
        case Nil
        with c1 have "I = cl'" by simp
        with Inm cl' show ?thesis by simp
      next
        case (Cons v vs)
        with c1 have "v = cl'" and eq: "a @ [t] = fm' @ cl' # vs" by simp_all
        from ne' obtain f fs where "fm' = f # fs" by (cases fm') auto
        with eq have "tl (a @ [t]) = fs @ cl' # vs" by (metis append_Cons list.sel(3))
        moreover have "tl fm = tl (a @ [t]) @ b" unfolding fm by (cases a) simp_all
        ultimately have "cl' \<in> set (tl fm)" by simp
        with nomark cl' show ?thesis by blast
      qed
    next
      assume c2: "(a @ [t]) @ us = fm' \<and> I # split_lines R' = us @ cl' # rest'"
      show ?thesis
      proof (cases us)
        case Nil
        with c2 have "I = cl'" by simp
        with Inm cl' show ?thesis by simp
      next
        case (Cons v vs)
        with c2 have "v = I" by simp
        with Cons c2 show ?thesis by auto
      qed
    qed
    with Iimg have "has_image fm'" unfolding has_image_def list_ex_iff by blast
    with r show ?thesis by (simp add: add_image_to_frontmatter_def)
  qed
  with run1 show ?thesis by simp
qed

section \<open>What a match of the tag pattern looks like\<close>

text \<open>
  Inversion of the matcher, item by item, and from it the shape of every text in which
  the tag pattern matches.
\<close>

lemma rmatch_Single:
  "rmatch (Single c # r) s cap = Some m \<Longrightarrow>
     \<exists>x xs. s = x # xs \<and> cmatch c x \<and> rmatch r xs cap = Some m"
  by (cases s) (auto split: if_splits)

lemma rmatch_lits:
  "rmatch (lits w @ r) s cap = Some m \<Longrightarrow> \<exists>t. s = str w @ t \<and> rmatch r t cap = Some m"
proof (induction w arbitrary: s)
  case Nil
  then show ?case by (simp add: lits_def str_def)
next
  case (Cons a w)
  from Cons.prems have "rmatch (Single (Lit (of_char a)) # lits w @ r) s cap = Some m"
    by (simp add: lits_def)
  from rmatch_Single [OF this] obtain x xs where
    s: "s = x # xs" and x: "x = of_char a" and r: "rmatch (lits w @ r) xs cap = Some m"
    by auto
  from Cons.IH [OF r] obtain t where "xs = str w @ t" "rmatch r t cap = Some m" by blast
  with s x show ?case by (simp add: str_def)
qed

lemma rmatch_GreedyStar:
  "rmatch (GreedyStar c # r) s cap = Some m \<Longrightarrow>
     \<exists>ys zs. s = ys @ zs \<and> (\<forall>y \<in> set ys. cmatch c y) \<and> rmatch r zs cap = Some m"
proof (induction s)
  case Nil
  then have "rmatch r [] cap = Some m" by simp
  then show ?case by (intro exI [of _ "[]"]) simp
next
  case (Cons x xs)
  have skip: "rmatch r (x # xs) cap = Some m \<Longrightarrow> ?case"
    by (intro exI [of _ "[]"] exI [of _ "x # xs"]) simp
  show ?case
  proof (cases "cmatch c x")
    case False
    with Cons.prems have "rmatch r (x # xs) cap = Some m" by simp
    then show ?thesis by (rule skip)
  next
    case True
    show ?thesis
    proof (cases "rmatch (GreedyStar c # r) xs cap")
      case None
      with True Cons.prems have "rmatch r (x # xs) cap = Some m" by simp
      then show ?thesis by (rule skip)
    next
      case (Some m')
      with True Cons.prems have "m' = m" by simp
      with Some Cons.IH obtain ys zs where
        ys: "xs = ys @ zs" "\<forall>y \<in> set ys. cmatch c y" "rmatch r zs cap = Some m"
        by blast
      show ?thesis
        by (intro exI [of _ "x # ys"] exI [of _ zs]) (simp add: ys True)
    qed
  qed
qed

lemma rmatch_GreedyPlus:
  assumes "rmatch (GreedyPlus c # r) s cap = Some m"
  shows "\<exists>ys zs. s = ys @ zs \<and> ys \<noteq> [] \<and> (\<forall>y \<in> set ys. cmatch c y)
           \<and> rmatch r zs cap = Some m"
proof -
  from assms obtain x xs where s: "s = x # xs" and x: "cmatch c x"
    and g: "rmatch (GreedyStar c # r) xs cap = Some m"
    by (cases s) (auto split: if_splits)
  from rmatch_GreedyStar [OF g] obtain ys zs where
    "xs = ys @ zs" "\<forall>y \<in> set ys. cmatch c y" "rmatch r zs cap = Some m"
    by blast
  with s x have "s = (x # ys) @ zs \<and> x # ys \<noteq> [] \<and> (\<forall>y \<in> set (x # ys). cmatch c y)
      \<and> rmatch r zs cap = Some m"
    by simp
  then show ?thesis by blast
qed

lemma research_Some:
  "research p s = Some m \<Longrightarrow> \<exists>pre t. s = pre @ t \<and> rmatch p t ([], []) = Some m"
proof (induction s)
  case Nil
  then show ?case by simp
next
  case (Cons x xs)
  show ?case
  proof (cases "rmatch p (x # xs) ([], [])")
    case None
    with Cons.prems have "research p xs = Some m" by simp
    from Cons.IH [OF this] obtain pre t where "xs = pre @ t" "rmatch p t ([], []) = Some m"
      by blast
    then have "x # xs = (x # pre) @ t \<and> rmatch p t ([], []) = Some m" by simp
    then show ?thesis by blast
  next
    case (Some m')
    with Cons.prems have "x # xs = [] @ x # xs \<and> rmatch p (x # xs) ([], []) = Some m" by simp
    then show ?thesis by blast
  qed
qed

lemma html_match_shape:
  assumes "rmatch html_pattern t cap = Some m"
  shows "\<exists>attrs q1 q2 post. t = str ''<img'' @ attrs @ str ''src='' @ q1 # group1 m @ q2 # post
           \<and> attrs \<noteq> [] \<and> 62 \<notin> set attrs \<and> quote q1 \<and> quote q2
           \<and> group1 m \<noteq> [] \<and> (\<forall>c \<in> set (group1 m). \<not> quote c)"
proof -
  let ?q = "str [CHR 0x22, CHR 0x27]"
  let ?r3 = "[Single (OneOf ?q)]"
  let ?r2 = "GroupStart # GreedyPlus (NoneOf ?q) # GroupEnd # ?r3"
  let ?r1 = "lits ''src='' @ Single (OneOf ?q) # ?r2"
  from assms have "rmatch (lits ''<img'' @ GreedyPlus (NoneOf (str ''>'')) # ?r1) t cap = Some m"
    by (simp add: html_pattern_def)
  from rmatch_lits [OF this] obtain t1 where
    t: "t = str ''<img'' @ t1" and m1: "rmatch (GreedyPlus (NoneOf (str ''>'')) # ?r1) t1 cap = Some m"
    by blast
  from rmatch_GreedyPlus [OF m1] obtain attrs t2 where
    t1: "t1 = attrs @ t2" and attrs: "attrs \<noteq> []" "\<forall>y \<in> set attrs. cmatch (NoneOf (str ''>'')) y"
    and m2: "rmatch ?r1 t2 cap = Some m"
    by blast
  from rmatch_lits [OF m2] obtain t3 where
    t2: "t2 = str ''src='' @ t3" and m3: "rmatch (Single (OneOf ?q) # ?r2) t3 cap = Some m"
    by blast
  from rmatch_Single [OF m3] obtain q1 t4 where
    t3: "t3 = q1 # t4" and q1: "cmatch (OneOf ?q) q1" and m4: "rmatch ?r2 t4 cap = Some m"
    by blast
  from m4 have "rmatch (GreedyPlus (NoneOf ?q) # GroupEnd # ?r3) t4 (t4, snd cap) = Some m"
    by simp
  from rmatch_GreedyPlus [OF this] obtain u t5 where
    t4: "t4 = u @ t5" and u: "u \<noteq> []" "\<forall>y \<in> set u. cmatch (NoneOf ?q) y"
    and m5: "rmatch (GroupEnd # ?r3) t5 (t4, snd cap) = Some m"
    by blast
  from m5 have "rmatch ?r3 t5 (t4, t5) = Some m" by simp
  from rmatch_Single [OF this] obtain q2 post where
    t5: "t5 = q2 # post" and q2: "cmatch (OneOf ?q) q2" and m6: "rmatch [] post (t4, t5) = Some m"
    by blast
  from m6 have "m = (t4, t5)" by simp
  with t4 have g: "group1 m = u" by (simp add: group1_def)
  from q1 q2 have "quote q1" "quote q2" by (simp_all add: quote_def str_def)
  moreover from attrs have "62 \<notin> set attrs" by (auto simp: str_def)
  moreover from u have "\<forall>c \<in> set u. \<not> quote c" by (auto simp: quote_def str_def)
  moreover from t t1 t2 t3 t4 t5
  have "t = str ''<img'' @ attrs @ str ''src='' @ q1 # u @ q2 # post" by simp
  ultimately have "t = str ''<img'' @ attrs @ str ''src='' @ q1 # group1 m @ q2 # post
      \<and> attrs \<noteq> [] \<and> 62 \<notin> set attrs \<and> quote q1 \<and> quote q2
      \<and> group1 m \<noteq> [] \<and> (\<forall>c \<in> set (group1 m). \<not> quote c)"
    using attrs(1) u(1) g by simp
  then show ?thesis by blast
qed

lemma html_search_shape:
  assumes "html_search content = Some u"
  shows "\<exists>pre attrs q1 q2 post.
           content = pre @ str ''<img'' @ attrs @ str ''src='' @ q1 # u @ q2 # post
           \<and> attrs \<noteq> [] \<and> 62 \<notin> set attrs \<and> quote q1 \<and> quote q2
           \<and> u \<noteq> [] \<and> (\<forall>c \<in> set u. \<not> quote c)"
proof -
  from assms obtain m where r: "research html_pattern content = Some m" and u: "u = group1 m"
    by (auto simp: html_search_def)
  from research_Some [OF r] obtain pre t where
    c: "content = pre @ t" and m: "rmatch html_pattern t ([], []) = Some m"
    by blast
  from html_match_shape [OF m] obtain attrs q1 q2 post where
    "t = str ''<img'' @ attrs @ str ''src='' @ q1 # group1 m @ q2 # post"
    "attrs \<noteq> []" "62 \<notin> set attrs" "quote q1" "quote q2"
    "group1 m \<noteq> []" "\<forall>c \<in> set (group1 m). \<not> quote c"
    by blast
  with c u have "content = pre @ str ''<img'' @ attrs @ str ''src='' @ q1 # u @ q2 # post
      \<and> attrs \<noteq> [] \<and> 62 \<notin> set attrs \<and> quote q1 \<and> quote q2
      \<and> u \<noteq> [] \<and> (\<forall>c \<in> set u. \<not> quote c)"
    by simp
  then show ?thesis by blast
qed

section \<open>Reading the output again\<close>

text \<open>
  When the inserted line is a single line and the closing line is terminated, the
  rewritten file is parsed into the new front matter, the same closing line, and a body
  that starts with the added newline.
\<close>

lemma split_lines_shape:
  "l \<in> set (split_lines s) \<Longrightarrow> l \<noteq> [] \<and> LF \<notin> set (butlast l)"
proof (induction s arbitrary: l)
  case Nil
  then show ?case by simp
next
  case (Cons c cs)
  show ?case
  proof (cases "c = LF")
    case True
    with Cons show ?thesis by auto
  next
    case False
    show ?thesis
    proof (cases "split_lines cs")
      case Nil
      with False Cons.prems show ?thesis by simp
    next
      case (Cons m ms)
      with False Cons.prems have "l = c # m \<or> l \<in> set ms" by simp
      then show ?thesis
      proof
        assume l: "l = c # m"
        from Cons Cons.IH [of m] have "m \<noteq> [] \<and> LF \<notin> set (butlast m)" by simp
        with l False show ?thesis by simp
      next
        assume "l \<in> set ms"
        with Cons Cons.IH [of l] show ?thesis by simp
      qed
    qed
  qed
qed

lemma insert_image_set:
  "set (insert_image fm url b) \<subseteq> set fm \<union> {image_line url}"
  by (induction fm arbitrary: b) auto

lemma insert_image_Cons:
  "\<exists>rest. insert_image (l0 # a) url b = l0 # rest \<and> set rest \<subseteq> set a \<union> {image_line url}"
  using insert_image_set [of a url] by auto

lemma image_line_as_prefix: "image_line url = str ''image:'' @ 32 # url @ [LF]"
  by (simp add: image_line_def str_def)

lemma image_line_not_marker: "strip (image_line url) \<noteq> marker"
  unfolding image_line_as_prefix by (rule image_prefix_not_marker)

lemma image_line_terminated: "LF \<notin> set url \<Longrightarrow> terminated (image_line url)"
  by (simp add: terminated_def image_line_def str_def LF_def)

lemma image_line_no_CR: "CR \<notin> set url \<Longrightarrow> CR \<notin> set (image_line url)"
  by (simp add: image_line_def str_def LF_def CR_def)

lemma output_no_CR:
  assumes p: "parse_frontmatter (readlines raw) = Some (fm, cl, body)"
  shows "CR \<notin> set (concat (insert_image fm (resolve_image body) b) @ cl @ [LF] @ body)"
proof -
  have "CR \<notin> set (universal_newlines raw)" by (rule universal_newlines_no_CR)
  with eligible_input(1) [OF p]
  have cr: "\<forall>l \<in> set fm. CR \<notin> set l" "CR \<notin> set cl" "CR \<notin> set body" by auto
  from image_line_no_CR [OF resolve_image_no_CR [OF cr(3)]]
  have "CR \<notin> set (image_line (resolve_image body))" .
  with cr(1) insert_image_set [of fm "resolve_image body" b]
  have "\<forall>l \<in> set (insert_image fm (resolve_image body) b). CR \<notin> set l" by auto
  with cr show ?thesis by (auto simp: CR_def LF_def)
qed

lemma reparse_output:
  assumes p: "parse_frontmatter (readlines raw) = Some (fm, cl, body)"
    and ni: "\<not> has_image fm" and lf: "last cl = LF"
    and nl: "LF \<notin> set (resolve_image body)"
  shows "parse_frontmatter (readlines (snd (add_image_to_frontmatter raw)))
           = Some (insert_image fm (resolve_image body) False, cl, LF # body)"
proof -
  define url where "url = resolve_image body"
  define fm' where "fm' = insert_image fm url False"
  define out where "out = concat fm' @ cl @ [LF] @ body"
  from add_image_rewrites [OF p ni] have run: "snd (add_image_to_frontmatter raw) = out"
    by (simp add: out_def fm'_def url_def)
  from output_no_CR [OF p, of False] have "CR \<notin> set out"
    by (simp add: out_def fm'_def url_def)
  then have rl: "readlines out = split_lines out"
    by (simp add: readlines_def universal_newlines_id)
  from parse_frontmatter_Some [OF p] obtain rest where
    l: "readlines raw = fm @ cl # rest" and fmne: "fm \<noteq> []"
    and st: "startswith (strip (hd fm)) marker" and mk: "strip cl = marker"
    and nomark: "\<forall>l \<in> set (tl fm). strip l \<noteq> marker"
    by blast
  from l have "cl \<in> set (split_lines (universal_newlines raw))" by (simp add: readlines_def)
  from split_lines_shape [OF this] lf have tcl: "terminated cl" by (simp add: terminated_def)
  from nl have "terminated (image_line url)" unfolding url_def by (rule image_line_terminated)
  with eligible_input(2) [OF p] insert_image_set [of fm url False]
  have tfm: "\<forall>l \<in> set fm'. terminated l" unfolding fm'_def by auto
  have "split_lines out = fm' @ split_lines (cl @ LF # body)"
    unfolding out_def using split_lines_concat [OF tfm, of "cl @ LF # body"] by simp
  also have "split_lines (cl @ LF # body) = cl # split_lines (LF # body)"
    by (rule terminated_split [OF tcl])
  finally have lines2: "readlines out = fm' @ cl # ([LF] # split_lines body)"
    using rl by simp
  from fmne obtain l0 a where fm: "fm = l0 # a" by (cases fm) auto
  from insert_image_Cons [of l0 a url False] obtain r where
    r: "fm' = l0 # r" "set r \<subseteq> set a \<union> {image_line url}"
    unfolding fm'_def fm by blast
  from r fm nomark image_line_not_marker [of url]
  have "\<forall>l \<in> set (tl fm'). strip l \<noteq> marker" by auto
  moreover from r have "fm' \<noteq> []" by simp
  moreover from r fm st have "startswith (strip (hd fm')) marker" by simp
  ultimately have "parse_frontmatter (fm' @ cl # ([LF] # split_lines body))
      = Some (fm', cl, concat ([LF] # split_lines body))"
    using mk by (intro parse_frontmatter_intro)
  with lines2 run show ?thesis
    by (simp add: concat_split_lines fm'_def url_def)
qed

section \<open>Inline references that are found\<close>

text \<open>
  The lazy star of the inline pattern stops at the first \<^verbatim>\<open>](\<close> and the group at the
  first \<^verbatim>\<open>)\<close>; the search starts at the first \<^verbatim>\<open>!\<close>.
\<close>

lemma rmatch_LazyStar_skip:
  "\<forall>y \<in> set ys. cmatch c y \<and> \<not> cmatch d y \<Longrightarrow>
     rmatch (LazyStar c # Single d # r) (ys @ t) cap = rmatch (LazyStar c # Single d # r) t cap"
  by (induction ys) simp_all

lemma rmatch_LazyStar_group_skip:
  "\<forall>y \<in> set ys. cmatch c y \<and> \<not> cmatch d y \<Longrightarrow>
     rmatch (LazyStar c # GroupEnd # Single d # r) (ys @ t) cap
       = rmatch (LazyStar c # GroupEnd # Single d # r) t cap"
  by (induction ys) simp_all

lemma research_skip:
  "a \<notin> set pre \<Longrightarrow> t \<noteq> [] \<Longrightarrow>
     research (Single (Lit a) # r) (pre @ t) = research (Single (Lit a) # r) t"
  by (induction pre) auto

lemma md_match_reference:
  assumes alt: "93 \<notin> set alt" "LF \<notin> set alt" and url: "41 \<notin> set url" "LF \<notin> set url"
  shows "rmatch md_pattern (str ''!['' @ alt @ str '']('' @ url @ 41 # post) cap
           = Some (url @ 41 # post, 41 # post)"
proof -
  let ?tail = "[GroupStart, LazyStar Dot, GroupEnd, Single (Lit 41)]"
  let ?r = "Single (Lit 40) # ?tail"
  from alt have a: "\<forall>y \<in> set alt. cmatch Dot y \<and> \<not> cmatch (Lit 93) y" by auto
  from url have u: "\<forall>y \<in> set url. cmatch Dot y \<and> \<not> cmatch (Lit 41) y" by auto
  have inner: "rmatch (LazyStar Dot # GroupEnd # [Single (Lit 41)]) (url @ 41 # post) (url @ 41 # post, snd cap)
      = Some (url @ 41 # post, 41 # post)"
    unfolding rmatch_LazyStar_group_skip [OF u] by simp
  have "rmatch md_pattern (str ''!['' @ alt @ str '']('' @ url @ 41 # post) cap
      = rmatch (LazyStar Dot # Single (Lit 93) # ?r) (alt @ (93 # 40 # url @ 41 # post)) cap"
    by (simp add: md_pattern_def lits_def str_def)
  also have "\<dots> = rmatch (LazyStar Dot # Single (Lit 93) # ?r) (93 # 40 # url @ 41 # post) cap"
    by (rule rmatch_LazyStar_skip [OF a])
  also have "\<dots> = Some (url @ 41 # post, 41 # post)"
    using inner by simp
  finally show ?thesis .
qed

lemma md_search_reference:
  assumes "33 \<notin> set pre" and "93 \<notin> set alt" "LF \<notin> set alt"
    and "41 \<notin> set url" "LF \<notin> set url"
  shows "md_search (pre @ str ''!['' @ alt @ str '']('' @ url @ 41 # post) = Some url"
proof -
  let ?t = "str ''!['' @ alt @ str '']('' @ url @ 41 # post"
  have p: "md_pattern = Single (Lit 33) # tl md_pattern"
    by (simp add: md_pattern_def lits_def)
  have ne: "?t \<noteq> []" by (simp add: str_def)
  then obtain x xs where t: "?t = x # xs" by (cases ?t) auto
  have "research md_pattern (pre @ ?t) = research md_pattern ?t"
    using research_skip [OF assms(1) ne, of "tl md_pattern"] p by simp
  also have "\<dots> = Some (url @ 41 # post, 41 # post)"
    using md_match_reference [OF assms(2-5), of post "([], [])"] unfolding t by simp
  finally show ?thesis by (simp add: md_search_def group1_def)
qed

section \<open>Tags that are found\<close>

text \<open>
  The greedy repetition gives back characters until the rest of the pattern matches:
  a match of the rest at some split is enough for a match, and the split that is used is
  the last one at which the rest matches.
\<close>

lemma rmatch_GreedyStar_rest:
  "rmatch r zs cap \<noteq> None \<Longrightarrow> rmatch (GreedyStar c # r) zs cap \<noteq> None"
  by (cases zs) (auto split: option.splits)

lemma rmatch_GreedyStar_complete:
  "\<forall>y \<in> set ys. cmatch c y \<Longrightarrow> rmatch r zs cap \<noteq> None \<Longrightarrow>
     rmatch (GreedyStar c # r) (ys @ zs) cap \<noteq> None"
proof (induction ys)
  case Nil
  then show ?case using rmatch_GreedyStar_rest by simp
next
  case (Cons y ys)
  then have "rmatch (GreedyStar c # r) (ys @ zs) cap \<noteq> None" by simp
  with Cons.prems(1) show ?case by (auto split: option.splits)
qed

lemma rmatch_GreedyStar_prefix:
  "\<forall>y \<in> set ys. cmatch c y \<Longrightarrow> rmatch (GreedyStar c # r) zs cap = Some m \<Longrightarrow>
     rmatch (GreedyStar c # r) (ys @ zs) cap = Some m"
  by (induction ys) simp_all

lemma rmatch_GreedyStar_backtrack:
  assumes "\<forall>y \<in> set ys. cmatch c y" and "zs = [] \<or> \<not> cmatch c (hd zs)"
    and "\<forall>ys1 ys2. ys = ys1 @ ys2 \<and> ys1 \<noteq> [] \<longrightarrow> rmatch r (ys2 @ zs) cap = None"
  shows "rmatch (GreedyStar c # r) (ys @ zs) cap = rmatch r (ys @ zs) cap"
  using assms
proof (induction ys)
  case Nil
  then show ?case by (cases zs) simp_all
next
  case (Cons y ys)
  have "\<forall>ys1 ys2. ys = ys1 @ ys2 \<and> ys1 \<noteq> [] \<longrightarrow> rmatch r (ys2 @ zs) cap = None"
  proof (intro allI impI)
    fix ys1 ys2
    assume "ys = ys1 @ ys2 \<and> ys1 \<noteq> []"
    then have "y # ys = (y # ys1) @ ys2 \<and> y # ys1 \<noteq> []" by simp
    with Cons.prems(3) show "rmatch r (ys2 @ zs) cap = None" by blast
  qed
  with Cons.IH Cons.prems(1,2)
  have "rmatch (GreedyStar c # r) (ys @ zs) cap = rmatch r (ys @ zs) cap" by simp
  moreover from Cons.prems(3) have "rmatch r (ys @ zs) cap = None"
    by (metis append_Cons append_Nil list.distinct(1))
  ultimately show ?case using Cons.prems(1) by simp
qed

lemma rmatch_lits_append: "rmatch (lits w @ r) (str w @ t) cap = rmatch r t cap"
  by (induction w) (simp_all add: lits_def str_def)

lemma research_complete:
  "rmatch p t ([], []) \<noteq> None \<Longrightarrow> research p (pre @ t) \<noteq> None"
proof (induction pre)
  case Nil
  then show ?case by (cases t) (auto split: option.splits)
next
  case (Cons x pre)
  then show ?case by (auto split: option.splits)
qed

lemma tag_tail_match:
  assumes "quote q1" and "quote q2" and "u \<noteq> []" and "\<forall>c \<in> set u. \<not> quote c"
  shows "rmatch tag_tail (q1 # u @ q2 # x) cap = Some (u @ q2 # x, q2 # x)"
proof -
  let ?c = "NoneOf (str [CHR 0x22, CHR 0x27])"
  let ?r = "[GroupEnd, Single (OneOf (str [CHR 0x22, CHR 0x27]))]"
  from assms(3) obtain u0 us where u: "u = u0 # us" by (cases u) auto
  from assms(4) have all: "\<forall>y \<in> set us. cmatch ?c y" and u0: "cmatch ?c u0"
    by (auto simp: u quote_def str_def)
  from assms(2) have "rmatch (GreedyStar ?c # ?r) (q2 # x) (u @ q2 # x, snd cap)
      = Some (u @ q2 # x, q2 # x)"
    by (auto simp: quote_def str_def)
  from rmatch_GreedyStar_prefix [OF all this]
  have "rmatch (GreedyStar ?c # ?r) (us @ q2 # x) (u @ q2 # x, snd cap)
      = Some (u @ q2 # x, q2 # x)" .
  with u0 have "rmatch (GreedyPlus ?c # ?r) (u @ q2 # x) (u @ q2 # x, snd cap)
      = Some (u @ q2 # x, q2 # x)"
    by (simp add: u)
  with assms(1) show ?thesis by (auto simp: quote_def str_def)
qed

lemma html_pattern_split:
  "html_pattern = lits ''<img'' @ GreedyPlus (NoneOf (str ''>'')) # lits ''src='' @ tag_tail"
  by (simp add: html_pattern_def)

lemma html_match_complete:
  assumes "attrs \<noteq> []" and "62 \<notin> set attrs" and "quote q1" and "quote q2"
    and "u \<noteq> []" and "\<forall>c \<in> set u. \<not> quote c"
  shows "rmatch html_pattern (str ''<img'' @ attrs @ str ''src='' @ q1 # u @ q2 # post) cap \<noteq> None"
proof -
  let ?c = "NoneOf (str ''>'')"
  let ?r = "lits ''src='' @ tag_tail"
  from assms(1) obtain a0 as where attrs: "attrs = a0 # as" by (cases attrs) auto
  with assms(2) have a0: "cmatch ?c a0" and all: "\<forall>y \<in> set as. cmatch ?c y"
    by (auto simp: str_def)
  have "rmatch ?r (str ''src='' @ q1 # u @ q2 # post) cap \<noteq> None"
    unfolding rmatch_lits_append using tag_tail_match [OF assms(3-6)] by simp
  from rmatch_GreedyStar_complete [OF all this]
  have "rmatch (GreedyPlus ?c # ?r) (attrs @ str ''src='' @ q1 # u @ q2 # post) cap \<noteq> None"
    using a0 by (simp add: attrs)
  then show ?thesis
    unfolding html_pattern_split rmatch_lits_append .
qed

lemma html_search_complete:
  assumes "attrs \<noteq> []" and "62 \<notin> set attrs" and "quote q1" and "quote q2"
    and "u \<noteq> []" and "\<forall>c \<in> set u. \<not> quote c"
  shows "html_search (pre @ str ''<img'' @ attrs @ str ''src='' @ q1 # u @ q2 # post) \<noteq> None"
  using research_complete [OF html_match_complete [OF assms, of post "([], [])"], of pre]
  by (simp add: html_search_def)

text \<open>
  After the last \<^verbatim>\<open>src=\<close> of the tag: no later split of the characters that the greedy
  repetition took lets the rest of the pattern match.
\<close>

lemma src_later_fails:
  assumes split: "str ''src='' @ q1 # w = ys1 @ ys2" and ne: "ys1 \<noteq> []" and q1: "quote q1"
    and stop: "zs = [] \<or> hd zs = 62"
    and absent: "\<forall>w1 w2. w \<noteq> w1 @ str ''src='' @ w2"
  shows "rmatch (lits ''src='' @ r) (ys2 @ zs) cap = None"
proof (rule ccontr)
  assume "rmatch (lits ''src='' @ r) (ys2 @ zs) cap \<noteq> None"
  then obtain m where "rmatch (lits ''src='' @ r) (ys2 @ zs) cap = Some m" by auto
  from rmatch_lits [OF this] obtain t where t: "ys2 @ zs = str ''src='' @ t" by blast
  from t stop obtain v where v: "ys2 = str ''src='' @ v"
    by (cases zs) (auto simp: str_def append_eq_Cons_conv)
  from split ne q1 v have "\<exists>w1. w = w1 @ ys2"
    by (auto simp: str_def quote_def Cons_eq_append_conv)
  then obtain w1 where "w = w1 @ str ''src='' @ v" using v by auto
  with absent show False by blast
qed

lemma html_match_last_src:
  assumes attrs: "attrs \<noteq> []" "62 \<notin> set attrs" and q: "quote q1" "quote q2"
    and u: "u \<noteq> []" "\<forall>c \<in> set u. \<not> quote c" "62 \<notin> set u"
    and more: "62 \<notin> set more" and stop: "rest = [] \<or> hd rest = 62"
    and absent: "\<forall>w1 w2. u @ q2 # more \<noteq> w1 @ str ''src='' @ w2"
  shows "rmatch html_pattern (str ''<img'' @ attrs @ str ''src='' @ q1 # u @ q2 # more @ rest) cap
           = Some (u @ q2 # more @ rest, q2 # more @ rest)"
proof -
  let ?c = "NoneOf (str ''>'')"
  let ?r = "lits ''src='' @ tag_tail"
  let ?B = "str ''src='' @ q1 # u @ q2 # more"
  from attrs(1) obtain a0 as where a: "attrs = a0 # as" by (cases attrs) auto
  with attrs(2) have a0: "cmatch ?c a0" and all: "\<forall>y \<in> set as. cmatch ?c y"
    by (auto simp: str_def)
  from q u(3) more have allB: "\<forall>y \<in> set ?B. cmatch ?c y"
    by (auto simp: str_def quote_def)
  from stop have stop': "rest = [] \<or> \<not> cmatch ?c (hd rest)" by (auto simp: str_def)
  have fails: "\<forall>ys1 ys2. ?B = ys1 @ ys2 \<and> ys1 \<noteq> [] \<longrightarrow> rmatch ?r (ys2 @ rest) cap = None"
  proof (intro allI impI)
    fix ys1 ys2
    assume "?B = ys1 @ ys2 \<and> ys1 \<noteq> []"
    then have "str ''src='' @ q1 # (u @ q2 # more) = ys1 @ ys2" and "ys1 \<noteq> []" by simp_all
    from src_later_fails [OF this q(1) stop absent]
    show "rmatch ?r (ys2 @ rest) cap = None" .
  qed
  have "rmatch ?r (?B @ rest) cap = Some (u @ q2 # more @ rest, q2 # more @ rest)"
    using tag_tail_match [OF q u(1,2), of "more @ rest" cap] rmatch_lits_append [of "''src=''"]
    by simp
  with rmatch_GreedyStar_backtrack [OF allB stop' fails]
  have "rmatch (GreedyStar ?c # ?r) (?B @ rest) cap
      = Some (u @ q2 # more @ rest, q2 # more @ rest)"
    by simp
  from rmatch_GreedyStar_prefix [OF all this]
  have "rmatch (GreedyPlus ?c # ?r) (attrs @ ?B @ rest) cap
      = Some (u @ q2 # more @ rest, q2 # more @ rest)"
    using a0 by (simp add: a)
  then show ?thesis
    unfolding html_pattern_split rmatch_lits_append by simp
qed

lemma html_search_last_src:
  assumes pre: "60 \<notin> set pre" and attrs: "attrs \<noteq> []" "62 \<notin> set attrs"
    and q: "quote q1" "quote q2"
    and u: "u \<noteq> []" "\<forall>c \<in> set u. \<not> quote c" "62 \<notin> set u"
    and more: "62 \<notin> set more" and stop: "rest = [] \<or> hd rest = 62"
    and absent: "\<forall>w1 w2. u @ q2 # more \<noteq> w1 @ str ''src='' @ w2"
  shows "html_search (pre @ str ''<img'' @ attrs @ str ''src='' @ q1 # u @ q2 # more @ rest)
           = Some u"
proof -
  let ?t = "str ''<img'' @ attrs @ str ''src='' @ q1 # u @ q2 # more @ rest"
  have p: "html_pattern = Single (Lit 60) # tl html_pattern"
    by (simp add: html_pattern_def lits_def)
  have ne: "?t \<noteq> []" by (simp add: str_def)
  then obtain x xs where t: "?t = x # xs" by (cases ?t) auto
  have "research html_pattern (pre @ ?t) = research html_pattern ?t"
    using research_skip [OF pre ne, of "tl html_pattern"] p by simp
  also have "\<dots> = Some (u @ q2 # more @ rest, q2 # more @ rest)"
    using html_match_last_src [OF attrs q u more stop absent, of "([], [])"] unfolding t by simp
  finally show ?thesis by (simp add: html_search_def group1_def)
qed

lemma no_equals_no_src: "61 \<notin> set w \<Longrightarrow> \<forall>w1 w2. w \<noteq> w1 @ str ''src='' @ w2"
  by (auto simp: str_def)

section \<open>Evaluation of concrete documents\<close>

lemmas eval_defs = add_image_to_frontmatter_def parse_frontmatter_def readlines_def str_def
  LF_def CR_def strip_def isspace_def startswith_def marker_def has_image_def has_title_def
  is_title_def image_line_def resolve_image_def find_first_image_def md_search_def
  html_search_def md_pattern_def html_pattern_def lits_def group1_def DEFAULT_IMAGE_def

lemma add_image_with_title:
  assumes p: "parse_frontmatter (readlines raw) = Some (fm, cl, body)" and ni: "\<not> has_image fm"
    and fm: "fm = a @ t # b" and t: "is_title t" and a: "\<forall>l \<in> set a. \<not> is_title l"
  shows "add_image_to_frontmatter raw
           = (True, concat a @ t @ image_line (resolve_image body) @ concat b @ cl @ [LF] @ body)"
proof -
  have "insert_image fm (resolve_image body) False = a @ t # image_line (resolve_image body) # b"
    unfolding fm by (rule insert_image_first_title [OF t a])
  with add_image_rewrites [OF p ni] show ?thesis by simp
qed

lemma has_title_split:
  assumes "has_title fm"
  shows "\<exists>a t b. fm = a @ t # b \<and> is_title t \<and> (\<forall>l \<in> set a. \<not> is_title l)"
proof -
  from assms have "\<exists>l \<in> set fm. is_title l" by (simp add: has_title_def list_ex_iff)
  from split_list_first_prop [OF this] show ?thesis .
qed

section \<open>The claims\<close>

subsection \<open>C1: a second run\<close>

text \<open>
  Against C1 as it is written: a document with a well-formed header, no \<^verbatim>\<open>image:\<close> field
  and no \<^verbatim>\<open>title:\<close> line is rewritten by the first run and rewritten again by the
  second, which adds one more newline after the closing marker and reports a change.
\<close>

theorem second_run_changes_untitled_counterexample:
  "add_image_to_frontmatter (str ''---\<newline>layout: post\<newline>---\<newline>body\<newline>'') = (True, str ''---\<newline>layout: post\<newline>---\<newline>\<newline>body\<newline>'')
   \<and> add_image_to_frontmatter (str ''---\<newline>layout: post\<newline>---\<newline>\<newline>body\<newline>'') = (True, str ''---\<newline>layout: post\<newline>---\<newline>\<newline>\<newline>body\<newline>'')
   \<and> str ''---\<newline>layout: post\<newline>---\<newline>\<newline>\<newline>body\<newline>'' \<noteq> str ''---\<newline>layout: post\<newline>---\<newline>\<newline>body\<newline>''"
  by (simp add: eval_defs)

text \<open>
  C1, amended: for every document that is not eligible, or already has an \<^verbatim>\<open>image:\<close>
  field, or has a \<^verbatim>\<open>title:\<close> line in its header, a second run of the Document Processor
  reports "unchanged" and leaves the file exactly as the first run left it.
\<close>

theorem second_run_no_change:
  assumes "case parse_frontmatter (readlines raw) of
             None \<Rightarrow> True
           | Some (fm, cl, body) \<Rightarrow> has_image fm \<or> has_title fm"
  shows "add_image_to_frontmatter (snd (add_image_to_frontmatter raw))
           = (False, snd (add_image_to_frontmatter raw))"
proof (cases "parse_frontmatter (readlines raw)")
  case None
  then have "add_image_to_frontmatter raw = (False, raw)"
    by (simp add: add_image_to_frontmatter_def)
  then show ?thesis by simp
next
  case (Some r)
  then obtain fm cl body where p: "parse_frontmatter (readlines raw) = Some (fm, cl, body)"
    by (cases r) auto
  show ?thesis
  proof (cases "has_image fm")
    case True
    with p have "add_image_to_frontmatter raw = (False, raw)"
      by (simp add: add_image_to_frontmatter_def)
    then show ?thesis by simp
  next
    case False
    with assms p have "has_title fm" by simp
    with p False show ?thesis by (rule second_run_skips)
  qed
qed

text \<open>Scenario 1 of the specification, run twice.\<close>

theorem second_run_no_change_witness:
  "add_image_to_frontmatter (str ''---\<newline>title: Hello\<newline>---\<newline>Some ![alt](/img/a.png) text\<newline>'') = (True, str ''---\<newline>title: Hello\<newline>image: /img/a.png\<newline>---\<newline>\<newline>Some ![alt](/img/a.png) text\<newline>'')
   \<and> add_image_to_frontmatter (str ''---\<newline>title: Hello\<newline>image: /img/a.png\<newline>---\<newline>\<newline>Some ![alt](/img/a.png) text\<newline>'') = (False, str ''---\<newline>title: Hello\<newline>image: /img/a.png\<newline>---\<newline>\<newline>Some ![alt](/img/a.png) text\<newline>'')"
proof -
  have h: "case parse_frontmatter (readlines (str ''---\<newline>title: Hello\<newline>---\<newline>Some ![alt](/img/a.png) text\<newline>'')) of
             None \<Rightarrow> True
           | Some (fm, cl, body) \<Rightarrow> has_image fm \<or> has_title fm"
    by (simp add: eval_defs)
  have r: "add_image_to_frontmatter (str ''---\<newline>title: Hello\<newline>---\<newline>Some ![alt](/img/a.png) text\<newline>'') = (True, str ''---\<newline>title: Hello\<newline>image: /img/a.png\<newline>---\<newline>\<newline>Some ![alt](/img/a.png) text\<newline>'')"
    by (simp add: eval_defs)
  from second_run_no_change [OF h] r show ?thesis by simp
qed

subsection \<open>C2: a header without a title line\<close>

text \<open>
  Against C2 as it is written: the header below is well formed and has neither an
  \<^verbatim>\<open>image:\<close> field nor a \<^verbatim>\<open>title:\<close> line; the Document Processor returns \<open>True\<close>,
  which is "changed".
\<close>

theorem untitled_reported_changed_counterexample:
  "parse_frontmatter (readlines (str ''---\<newline>layout: post\<newline>---\<newline>body\<newline>''))
     = Some ([str ''---\<newline>'', str ''layout: post\<newline>''], str ''---\<newline>'', str ''body\<newline>'')
   \<and> \<not> has_image [str ''---\<newline>'', str ''layout: post\<newline>'']
   \<and> \<not> has_title [str ''---\<newline>'', str ''layout: post\<newline>'']
   \<and> fst (add_image_to_frontmatter (str ''---\<newline>layout: post\<newline>---\<newline>body\<newline>'')) = True"
  by (simp add: eval_defs)

text \<open>
  C2, amended: for every document with a well-formed header, no \<^verbatim>\<open>image:\<close> field and no
  header line that starts with \<^verbatim>\<open>title:\<close> after stripping, the header lines are written
  back unmodified (no image field is inserted), the file is rewritten with one newline
  added after the closing marker line, and the Document Processor returns "changed".
\<close>

theorem untitled_rewritten:
  assumes "parse_frontmatter (readlines raw) = Some (fm, cl, body)"
    and "\<not> has_image fm" and "\<not> has_title fm"
  shows "insert_image fm (resolve_image body) False = fm
         \<and> add_image_to_frontmatter raw = (True, concat fm @ cl @ [LF] @ body)"
proof -
  from assms(3) have "\<forall>l \<in> set fm. \<not> is_title l"
    by (simp add: has_title_def list_ex_iff)
  then have "insert_image fm (resolve_image body) False = fm"
    by (rule insert_image_no_title)
  with add_image_rewrites [OF assms(1,2)] show ?thesis by simp
qed

theorem untitled_rewritten_witness:
  "add_image_to_frontmatter (str ''---\<newline>layout: post\<newline>---\<newline>body\<newline>'') = (True, str ''---\<newline>layout: post\<newline>---\<newline>\<newline>body\<newline>'')"
proof -
  have p: "parse_frontmatter (readlines (str ''---\<newline>layout: post\<newline>---\<newline>body\<newline>''))
      = Some ([str ''---\<newline>'', str ''layout: post\<newline>''], str ''---\<newline>'', str ''body\<newline>'')"
    by (simp add: eval_defs)
  have ni: "\<not> has_image [str ''---\<newline>'', str ''layout: post\<newline>'']"
    by (simp add: eval_defs)
  have nt: "\<not> has_title [str ''---\<newline>'', str ''layout: post\<newline>'']"
    by (simp add: eval_defs)
  from untitled_rewritten [OF p ni nt] show ?thesis by (simp add: str_def LF_def)
qed

subsection \<open>C3: what the rewrite changes\<close>

text \<open>
  Against C3 as it is written: the rewritten file is not the input with the single
  \<^verbatim>\<open>image:\<close> line inserted; it has one more newline after the closing marker.
\<close>

theorem rewrite_adds_newline_counterexample:
  "snd (add_image_to_frontmatter (str ''---\<newline>title: Hello\<newline>---\<newline>body\<newline>'')) = str ''---\<newline>title: Hello\<newline>image: /assets/favicon/android-chrome-512x512.png\<newline>---\<newline>\<newline>body\<newline>''
   \<and> str ''---\<newline>title: Hello\<newline>image: /assets/favicon/android-chrome-512x512.png\<newline>---\<newline>\<newline>body\<newline>'' \<noteq> str ''---\<newline>title: Hello\<newline>image: /assets/favicon/android-chrome-512x512.png\<newline>---\<newline>body\<newline>''"
  by (simp add: eval_defs)

text \<open>
  C3, amended: for every eligible document that the Document Processor rewrites, the
  output is the input as read (line ends normalised to \<^verbatim>\<open>\n\<close>) with two insertions and
  nothing else changed: the line \<^verbatim>\<open>image: <URL>\<close> inside the header, present exactly
  when the header has a title line, and one newline directly after the closing marker
  line.
\<close>

theorem rewrite_frame:
  assumes p: "parse_frontmatter (readlines raw) = Some (fm, cl, body)" and ni: "\<not> has_image fm"
  shows "\<exists>a b. universal_newlines raw = a @ b @ cl @ body
           \<and> add_image_to_frontmatter raw
               = (True, a @ (if has_title fm then image_line (resolve_image body) else [])
                          @ b @ cl @ [LF] @ body)"
proof (cases "has_title fm")
  case True
  from has_title_split [OF this] obtain a t b where
    fm: "fm = a @ t # b" and t: "is_title t" and a: "\<forall>l \<in> set a. \<not> is_title l"
    by blast
  from eligible_input(1) [OF p] fm
  have "universal_newlines raw = (concat a @ t) @ concat b @ cl @ body" by simp
  moreover from add_image_with_title [OF p ni fm t a] True
  have "add_image_to_frontmatter raw
      = (True, (concat a @ t) @ (if has_title fm then image_line (resolve_image body) else [])
                 @ concat b @ cl @ [LF] @ body)"
    by simp
  ultimately show ?thesis by (intro exI [of _ "concat a @ t"] exI [of _ "concat b"] conjI)
next
  case False
  then have "\<forall>l \<in> set fm. \<not> is_title l" by (simp add: has_title_def list_ex_iff)
  then have "insert_image fm (resolve_image body) False = fm" by (rule insert_image_no_title)
  with add_image_rewrites [OF p ni] False
  have "add_image_to_frontmatter raw
      = (True, concat fm @ (if has_title fm then image_line (resolve_image body) else [])
                 @ [] @ cl @ [LF] @ body)"
    by simp
  moreover from eligible_input(1) [OF p]
  have "universal_newlines raw = concat fm @ [] @ cl @ body" by simp
  ultimately show ?thesis by (intro exI [of _ "concat fm"] exI [of _ "[]"] conjI)
qed

theorem rewrite_frame_witness:
  "\<exists>a b. universal_newlines (str ''---\<newline>title: Hello\<newline>---\<newline>body\<newline>'') = a @ b @ str ''---\<newline>'' @ str ''body\<newline>''
     \<and> add_image_to_frontmatter (str ''---\<newline>title: Hello\<newline>---\<newline>body\<newline>'')
         = (True, a @ str ''image: /assets/favicon/android-chrome-512x512.png\<newline>'' @ b @ str ''---\<newline>'' @ [LF] @ str ''body\<newline>'')"
proof -
  have p: "parse_frontmatter (readlines (str ''---\<newline>title: Hello\<newline>---\<newline>body\<newline>''))
      = Some ([str ''---\<newline>'', str ''title: Hello\<newline>''], str ''---\<newline>'', str ''body\<newline>'')"
    by (simp add: eval_defs)
  have ni: "\<not> has_image [str ''---\<newline>'', str ''title: Hello\<newline>'']"
    by (simp add: eval_defs)
  have ht: "has_title [str ''---\<newline>'', str ''title: Hello\<newline>'']"
    by (simp add: eval_defs)
  have im: "image_line (resolve_image (str ''body\<newline>'')) = str ''image: /assets/favicon/android-chrome-512x512.png\<newline>''"
    by (simp add: eval_defs)
  from rewrite_frame [OF p ni] show ?thesis by (simp only: ht im if_True)
qed

subsection \<open>C4: the body after the rewrite\<close>

text \<open>
  Against C4 as it is written: read again, the rewritten file has a body (everything
  after the closing marker line) that starts with a newline the input body did not have.
\<close>

theorem body_gains_newline_counterexample:
  "map_option (snd \<circ> snd) (parse_frontmatter (readlines (str ''---\<newline>title: Hello\<newline>---\<newline>body\<newline>''))) = Some (str ''body\<newline>'')
   \<and> map_option (snd \<circ> snd)
        (parse_frontmatter (readlines (snd (add_image_to_frontmatter (str ''---\<newline>title: Hello\<newline>---\<newline>body\<newline>'')))))
       = Some (str ''\<newline>body\<newline>'')"
  by (simp add: eval_defs)

text \<open>
  C4, amended: for every eligible document, the rewritten file ends with the closing
  marker line, one added newline and then the body text exactly as it was read; when
  the closing marker line ends in a newline and the inserted URL has no line break, the
  body of the rewritten file (everything after its closing marker line) is that newline
  followed by the body before processing.
\<close>

theorem body_written_after_newline:
  assumes p: "parse_frontmatter (readlines raw) = Some (fm, cl, body)" and ni: "\<not> has_image fm"
  shows "snd (add_image_to_frontmatter raw)
           = concat (insert_image fm (resolve_image body) False) @ cl @ LF # body
         \<and> (last cl = LF \<and> LF \<notin> set (resolve_image body) \<longrightarrow>
              parse_frontmatter (readlines (snd (add_image_to_frontmatter raw)))
                = Some (insert_image fm (resolve_image body) False, cl, LF # body))"
  using add_image_rewrites [OF p ni] reparse_output [OF p ni] by simp

theorem body_written_after_newline_witness:
  "parse_frontmatter (readlines (snd (add_image_to_frontmatter (str ''---\<newline>title: Hello\<newline>---\<newline>Some ![alt](/img/a.png) text\<newline>''))))
     = Some ([str ''---\<newline>'', str ''title: Hello\<newline>'', str ''image: /img/a.png\<newline>''], str ''---\<newline>'', LF # str ''Some ![alt](/img/a.png) text\<newline>'')"
proof -
  have p: "parse_frontmatter (readlines (str ''---\<newline>title: Hello\<newline>---\<newline>Some ![alt](/img/a.png) text\<newline>''))
      = Some ([str ''---\<newline>'', str ''title: Hello\<newline>''], str ''---\<newline>'', str ''Some ![alt](/img/a.png) text\<newline>'')"
    by (simp add: eval_defs)
  have ni: "\<not> has_image [str ''---\<newline>'', str ''title: Hello\<newline>'']"
    by (simp add: eval_defs)
  have lf: "last (str ''---\<newline>'') = LF \<and> LF \<notin> set (resolve_image (str ''Some ![alt](/img/a.png) text\<newline>''))"
    by (simp add: eval_defs)
  have ins: "insert_image [str ''---\<newline>'', str ''title: Hello\<newline>''] (resolve_image (str ''Some ![alt](/img/a.png) text\<newline>'')) False
      = [str ''---\<newline>'', str ''title: Hello\<newline>'', str ''image: /img/a.png\<newline>'']"
    by (simp add: eval_defs)
  from body_written_after_newline [OF p ni, THEN conjunct2, THEN mp, OF lf]
  show ?thesis unfolding ins .
qed

subsection \<open>C5: where the image line goes\<close>



subsection \<open>C6: inline references come first\<close>

text \<open>
  C6: for every body text in which both patterns match, the Image Reference Extractor
  returns the URL of the first inline reference \<^verbatim>\<open>![alt](URL)\<close>, wherever the
  \<^verbatim>\<open><img ... src=...>\<close> tag stands. In particular, for a text \<open>pre ![alt](url) post\<close> in
  which \<open>pre\<close> has no \<^verbatim>\<open>!\<close> (it can hold any tags), \<open>alt\<close> has no \<^verbatim>\<open>]\<close>, \<open>url\<close> has no
  \<^verbatim>\<open>)\<close> and neither has a line break, the result is \<open>url\<close>.
\<close>

theorem inline_reference_preferred:
  "(md_search content = Some u \<and> html_search content = Some v \<longrightarrow>
      find_first_image content = Some u)
   \<and> (33 \<notin> set pre \<and> 93 \<notin> set alt \<and> LF \<notin> set alt \<and> 41 \<notin> set url \<and> LF \<notin> set url \<longrightarrow>
        find_first_image (pre @ str ''!['' @ alt @ str '']('' @ url @ 41 # post) = Some url)"
proof (intro conjI impI)
  assume "md_search content = Some u \<and> html_search content = Some v"
  then show "find_first_image content = Some u"
    by (simp add: find_first_image_def)
next
  assume "33 \<notin> set pre \<and> 93 \<notin> set alt \<and> LF \<notin> set alt \<and> 41 \<notin> set url \<and> LF \<notin> set url"
  then have "md_search (pre @ str ''!['' @ alt @ str '']('' @ url @ 41 # post) = Some url"
    by (intro md_search_reference) simp_all
  then show "find_first_image (pre @ str ''!['' @ alt @ str '']('' @ url @ 41 # post) = Some url"
    by (simp add: find_first_image_def)
qed

text \<open>The tag comes first in the text and the inline reference is returned.\<close>

theorem inline_reference_preferred_witness:
  "html_search (str ''<img src=\"/img/b.png\"> and ![alt](/img/a.png)'') = Some (str ''/img/b.png'')
   \<and> find_first_image (str ''<img src=\"/img/b.png\"> and ![alt](/img/a.png)'') = Some (str ''/img/a.png'')"
proof -
  have m: "md_search (str ''<img src=\"/img/b.png\"> and ![alt](/img/a.png)'') = Some (str ''/img/a.png'')"
    by (simp add: eval_defs)
  have h: "html_search (str ''<img src=\"/img/b.png\"> and ![alt](/img/a.png)'') = Some (str ''/img/b.png'')"
    by (simp add: eval_defs)
  from m h have "md_search (str ''<img src=\"/img/b.png\"> and ![alt](/img/a.png)'') = Some (str ''/img/a.png'')
      \<and> html_search (str ''<img src=\"/img/b.png\"> and ![alt](/img/a.png)'') = Some (str ''/img/b.png'')"
    by (intro conjI)
  from inline_reference_preferred [THEN conjunct1, THEN mp, OF this] h
  show ?thesis by (intro conjI)
qed

subsection \<open>C7: the tag pattern\<close>

text \<open>
  Against C7 as it is written: the pattern is compiled without a flag, so an upper-case
  tag is not matched, while the same tag in lower case is.
\<close>

theorem upper_case_tag_not_found_counterexample:
  "md_search (str ''<IMG SRC=\"u.png\">'') = None
   \<and> find_first_image (str ''<IMG SRC=\"u.png\">'') = None
   \<and> find_first_image (str ''<img src=\"u.png\">'') = Some (str ''u.png'')"
  by (simp add: eval_defs)

text \<open>
  C7, amended: for every body text with no inline image reference, the Image Reference
  Extractor returns what the search for the tag pattern returns, and that search
  matches the tag name and \<^verbatim>\<open>src=\<close> in lower case only. A URL is found whenever the
  text contains the lower-case \<^verbatim>\<open><img\<close>, then one or more characters other than \<^verbatim>\<open>>\<close>,
  then the lower-case \<^verbatim>\<open>src=\<close>, a quote, a URL (not empty, without quotes) and a quote;
  every URL that is returned is captured from such a place; and for a tag
  \<^verbatim>\<open><img attrs src=qURLq more\<close> that ends the text or is closed by \<^verbatim>\<open>>\<close>, with no \<^verbatim>\<open><\<close>
  before it, no \<^verbatim>\<open>>\<close> in \<^verbatim>\<open>URL\<close> or \<^verbatim>\<open>more\<close>, and no further \<^verbatim>\<open>src=\<close> after the first
  quote, the URL returned is \<^verbatim>\<open>URL\<close>.
\<close>

theorem tag_match_case_sensitive:
  assumes "md_search content = None"
  shows "find_first_image content = html_search content
         \<and> (\<forall>u. html_search content = Some u \<longrightarrow>
              (\<exists>pre attrs q1 q2 post.
                 content = pre @ str ''<img'' @ attrs @ str ''src='' @ q1 # u @ q2 # post
                 \<and> attrs \<noteq> [] \<and> 62 \<notin> set attrs \<and> quote q1 \<and> quote q2
                 \<and> u \<noteq> [] \<and> (\<forall>c \<in> set u. \<not> quote c)))
         \<and> ((\<exists>pre attrs q1 u q2 post.
                 content = pre @ str ''<img'' @ attrs @ str ''src='' @ q1 # u @ q2 # post
                 \<and> attrs \<noteq> [] \<and> 62 \<notin> set attrs \<and> quote q1 \<and> quote q2
                 \<and> u \<noteq> [] \<and> (\<forall>c \<in> set u. \<not> quote c)) \<longrightarrow>
              (\<exists>u. find_first_image content = Some u))
         \<and> (content = pre @ str ''<img'' @ attrs @ str ''src='' @ q1 # url @ q2 # more @ rest
              \<and> 60 \<notin> set pre \<and> attrs \<noteq> [] \<and> 62 \<notin> set attrs \<and> quote q1 \<and> quote q2
              \<and> url \<noteq> [] \<and> (\<forall>c \<in> set url. \<not> quote c) \<and> 62 \<notin> set url
              \<and> 62 \<notin> set more \<and> (rest = [] \<or> hd rest = 62)
              \<and> (\<forall>w1 w2. url @ q2 # more \<noteq> w1 @ str ''src='' @ w2) \<longrightarrow>
              find_first_image content = Some url)"
proof -
  from assms have eq: "find_first_image content = html_search content"
    by (simp add: find_first_image_def split: option.splits)
  have sound: "\<forall>u. html_search content = Some u \<longrightarrow>
      (\<exists>pre attrs q1 q2 post.
         content = pre @ str ''<img'' @ attrs @ str ''src='' @ q1 # u @ q2 # post
         \<and> attrs \<noteq> [] \<and> 62 \<notin> set attrs \<and> quote q1 \<and> quote q2
         \<and> u \<noteq> [] \<and> (\<forall>c \<in> set u. \<not> quote c))"
    using html_search_shape by (intro allI impI)
  have found: "(\<exists>pre attrs q1 u q2 post.
         content = pre @ str ''<img'' @ attrs @ str ''src='' @ q1 # u @ q2 # post
         \<and> attrs \<noteq> [] \<and> 62 \<notin> set attrs \<and> quote q1 \<and> quote q2
         \<and> u \<noteq> [] \<and> (\<forall>c \<in> set u. \<not> quote c)) \<longrightarrow>
      (\<exists>u. find_first_image content = Some u)"
  proof
    assume "\<exists>pre attrs q1 u q2 post.
         content = pre @ str ''<img'' @ attrs @ str ''src='' @ q1 # u @ q2 # post
         \<and> attrs \<noteq> [] \<and> 62 \<notin> set attrs \<and> quote q1 \<and> quote q2
         \<and> u \<noteq> [] \<and> (\<forall>c \<in> set u. \<not> quote c)"
    then obtain pre attrs q1 u q2 post where
      c: "content = pre @ str ''<img'' @ attrs @ str ''src='' @ q1 # u @ q2 # post"
      and h: "attrs \<noteq> []" "62 \<notin> set attrs" "quote q1" "quote q2" "u \<noteq> []"
        "\<forall>c \<in> set u. \<not> quote c"
      by blast
    from html_search_complete [OF h, of pre post] have "html_search content \<noteq> None"
      unfolding c .
    with eq show "\<exists>u. find_first_image content = Some u" by simp
  qed
  have exact: "content = pre @ str ''<img'' @ attrs @ str ''src='' @ q1 # url @ q2 # more @ rest
      \<and> 60 \<notin> set pre \<and> attrs \<noteq> [] \<and> 62 \<notin> set attrs \<and> quote q1 \<and> quote q2
      \<and> url \<noteq> [] \<and> (\<forall>c \<in> set url. \<not> quote c) \<and> 62 \<notin> set url
      \<and> 62 \<notin> set more \<and> (rest = [] \<or> hd rest = 62)
      \<and> (\<forall>w1 w2. url @ q2 # more \<noteq> w1 @ str ''src='' @ w2) \<longrightarrow>
      find_first_image content = Some url"
  proof
    assume h: "content = pre @ str ''<img'' @ attrs @ str ''src='' @ q1 # url @ q2 # more @ rest
      \<and> 60 \<notin> set pre \<and> attrs \<noteq> [] \<and> 62 \<notin> set attrs \<and> quote q1 \<and> quote q2
      \<and> url \<noteq> [] \<and> (\<forall>c \<in> set url. \<not> quote c) \<and> 62 \<notin> set url
      \<and> 62 \<notin> set more \<and> (rest = [] \<or> hd rest = 62)
      \<and> (\<forall>w1 w2. url @ q2 # more \<noteq> w1 @ str ''src='' @ w2)"
    then have c: "content = pre @ str ''<img'' @ attrs @ str ''src='' @ q1 # url @ q2 # more @ rest"
      by (rule conjunct1)
    from h have "html_search (pre @ str ''<img'' @ attrs @ str ''src='' @ q1 # url @ q2 # more @ rest)
        = Some url"
      by (intro html_search_last_src) simp_all
    with eq c show "find_first_image content = Some url" by simp
  qed
  from eq sound found exact show ?thesis by (intro conjI)
qed

text \<open>A tag with an attribute before and one after \<^verbatim>\<open>src=\<close>.\<close>

theorem tag_match_case_sensitive_witness:
  "md_search (str ''See <img class=\"hero\" src=\"u.png\" alt=\"x\"> here'') = None
   \<and> find_first_image (str ''See <img class=\"hero\" src=\"u.png\" alt=\"x\"> here'') = Some (str ''u.png'')"
proof -
  let ?c = "str ''See '' @ str ''<img'' @ str '' class=\"hero\" '' @ str ''src='' @ 34 # str ''u.png'' @ 34 # str '' alt=\"x\"'' @ str ''> here''"
  have lit: "str ''See <img class=\"hero\" src=\"u.png\" alt=\"x\"> here'' = ?c"
    by (simp add: str_def)
  have m: "md_search ?c = None"
    by (simp add: eval_defs)
  have absent: "\<forall>w1 w2. str ''u.png'' @ 34 # str '' alt=\"x\"'' \<noteq> w1 @ str ''src='' @ w2"
    by (auto simp: str_def Cons_eq_append_conv)
  have h: "?c = ?c
      \<and> 60 \<notin> set (str ''See '') \<and> str '' class=\"hero\" '' \<noteq> [] \<and> 62 \<notin> set (str '' class=\"hero\" '') \<and> quote 34 \<and> quote 34
      \<and> str ''u.png'' \<noteq> [] \<and> (\<forall>c \<in> set (str ''u.png''). \<not> quote c) \<and> 62 \<notin> set (str ''u.png'')
      \<and> 62 \<notin> set (str '' alt=\"x\"'') \<and> (str ''> here'' = [] \<or> hd (str ''> here'') = 62)
      \<and> (\<forall>w1 w2. str ''u.png'' @ 34 # str '' alt=\"x\"'' \<noteq> w1 @ str ''src='' @ w2)"
    using absent by (simp add: str_def quote_def)
  from tag_match_case_sensitive [OF m, THEN conjunct2, THEN conjunct2, THEN conjunct2, THEN mp, OF h]
  have "find_first_image ?c = Some (str ''u.png'')" .
  with m show ?thesis unfolding lit by (intro conjI)
qed

subsection \<open>C8: the opening marker\<close>

text \<open>
  Against C8 as it is written: the first line below strips to \<^verbatim>\<open>---x\<close>, which is not the
  marker, and the document is accepted and rewritten.
\<close>

theorem longer_first_line_accepted_counterexample:
  "strip (hd (readlines (str ''---x\<newline>title: Hello\<newline>---\<newline>body\<newline>''))) \<noteq> marker
   \<and> add_image_to_frontmatter (str ''---x\<newline>title: Hello\<newline>---\<newline>body\<newline>'') = (True, str ''---x\<newline>title: Hello\<newline>image: /assets/favicon/android-chrome-512x512.png\<newline>---\<newline>\<newline>body\<newline>'')"
  by (simp add: eval_defs)

text \<open>
  C8, amended: for every document that is empty or whose first line, after stripping
  whitespace, does not start with the marker token \<^verbatim>\<open>---\<close>, the Header Parser fails with
  "not eligible" and the Document Processor leaves the file untouched; conversely a
  document is only rewritten when its stripped first line starts with the marker.
\<close>

theorem opening_marker_required:
  "(readlines raw = [] \<or> \<not> startswith (strip (hd (readlines raw))) marker \<longrightarrow>
      parse_frontmatter (readlines raw) = None \<and> add_image_to_frontmatter raw = (False, raw))
   \<and> (fst (add_image_to_frontmatter raw) \<longrightarrow>
        readlines raw \<noteq> [] \<and> startswith (strip (hd (readlines raw))) marker)"
  by (auto simp: add_image_to_frontmatter_def parse_frontmatter_def)

theorem opening_marker_required_witness:
  "\<not> startswith (strip (hd (readlines (str ''title: Hello\<newline>---\<newline>body\<newline>'')))) marker
   \<and> add_image_to_frontmatter (str ''title: Hello\<newline>---\<newline>body\<newline>'') = (False, str ''title: Hello\<newline>---\<newline>body\<newline>'')"
proof -
  have h: "\<not> startswith (strip (hd (readlines (str ''title: Hello\<newline>---\<newline>body\<newline>'')))) marker"
    by (simp add: eval_defs)
  then have "readlines (str ''title: Hello\<newline>---\<newline>body\<newline>'') = []
      \<or> \<not> startswith (strip (hd (readlines (str ''title: Hello\<newline>---\<newline>body\<newline>'')))) marker"
    by (rule disjI2)
  from opening_marker_required [THEN conjunct1, THEN mp, OF this, THEN conjunct2] h
  show ?thesis by (intro conjI)
qed

subsection \<open>C9: the default image\<close>

text \<open>
  C9: for every eligible document with a title line in its header whose body matches
  neither pattern, the line inserted after the first title line is
  \<^verbatim>\<open>image: /assets/favicon/android-chrome-512x512.png\<close>.
\<close>

theorem default_image_inserted:
  assumes p: "parse_frontmatter (readlines raw) = Some (fm, cl, body)" and ni: "\<not> has_image fm"
    and fm: "fm = a @ t # b" and t: "is_title t" and a: "\<forall>l \<in> set a. \<not> is_title l"
    and none: "md_search body = None" "html_search body = None"
  shows "add_image_to_frontmatter raw
           = (True, concat a @ t @ str ''image: /assets/favicon/android-chrome-512x512.png\<newline>''
                      @ concat b @ cl @ [LF] @ body)"
proof -
  from none have "resolve_image body = DEFAULT_IMAGE"
    by (simp add: resolve_image_def find_first_image_def)
  then have "image_line (resolve_image body) = str ''image: /assets/favicon/android-chrome-512x512.png\<newline>''"
    by (simp add: image_line_def DEFAULT_IMAGE_def str_def LF_def)
  with add_image_with_title [OF p ni fm t a] show ?thesis by simp
qed

text \<open>Scenario 4 of the specification.\<close>

theorem default_image_inserted_witness:
  "add_image_to_frontmatter (str ''---\<newline>title: Hello\<newline>---\<newline>body\<newline>'') = (True, str ''---\<newline>title: Hello\<newline>image: /assets/favicon/android-chrome-512x512.png\<newline>---\<newline>\<newline>body\<newline>'')"
proof -
  have p: "parse_frontmatter (readlines (str ''---\<newline>title: Hello\<newline>---\<newline>body\<newline>''))
      = Some ([str ''---\<newline>'', str ''title: Hello\<newline>''], str ''---\<newline>'', str ''body\<newline>'')"
    by (simp add: eval_defs)
  have ni: "\<not> has_image [str ''---\<newline>'', str ''title: Hello\<newline>'']"
    by (simp add: eval_defs)
  have fm: "[str ''---\<newline>'', str ''title: Hello\<newline>''] = [str ''---\<newline>''] @ str ''title: Hello\<newline>'' # []"
    by simp
  have t: "is_title (str ''title: Hello\<newline>'')"
    by (simp add: eval_defs)
  have a: "\<forall>l \<in> set [str ''---\<newline>'']. \<not> is_title l"
    by (simp add: eval_defs)
  have m: "md_search (str ''body\<newline>'') = None"
    by (simp add: eval_defs)
  have h: "html_search (str ''body\<newline>'') = None"
    by (simp add: eval_defs)
  from default_image_inserted [OF p ni fm t a m h] show ?thesis
    by (simp add: str_def LF_def)
qed

subsection \<open>C10: an inline reference with an empty URL\<close>

text \<open>
  C10: for every eligible document with a title line whose body has a first inline
  reference with an empty URL, \<^verbatim>\<open>![alt]()\<close>, the extractor returns the empty string, the
  Document Processor treats it as no image, and the line inserted is the one with the
  default asset path, not an empty \<^verbatim>\<open>image:\<close> value.
\<close>

theorem empty_url_gives_default:
  assumes p: "parse_frontmatter (readlines raw) = Some (fm, cl, body)" and ni: "\<not> has_image fm"
    and fm: "fm = a @ t # b" and t: "is_title t" and a: "\<forall>l \<in> set a. \<not> is_title l"
    and empty: "md_search body = Some []"
  shows "find_first_image body = Some []
         \<and> resolve_image body = DEFAULT_IMAGE
         \<and> add_image_to_frontmatter raw
             = (True, concat a @ t @ str ''image: /assets/favicon/android-chrome-512x512.png\<newline>''
                        @ concat b @ cl @ [LF] @ body)"
proof -
  from empty have f: "find_first_image body = Some []"
    by (simp add: find_first_image_def)
  then have r: "resolve_image body = DEFAULT_IMAGE"
    by (simp add: resolve_image_def)
  then have "image_line (resolve_image body) = str ''image: /assets/favicon/android-chrome-512x512.png\<newline>''"
    by (simp add: image_line_def DEFAULT_IMAGE_def str_def LF_def)
  with add_image_with_title [OF p ni fm t a] f r show ?thesis by simp
qed

text \<open>The tag after the empty reference is not looked at.\<close>

theorem empty_url_gives_default_witness:
  "add_image_to_frontmatter (str ''---\<newline>title: Hello\<newline>---\<newline>![logo]() <img src=\"/x.png\">\<newline>'') = (True, str ''---\<newline>title: Hello\<newline>image: /assets/favicon/android-chrome-512x512.png\<newline>---\<newline>\<newline>![logo]() <img src=\"/x.png\">\<newline>'')"
proof -
  have p: "parse_frontmatter (readlines (str ''---\<newline>title: Hello\<newline>---\<newline>![logo]() <img src=\"/x.png\">\<newline>''))
      = Some ([str ''---\<newline>'', str ''title: Hello\<newline>''], str ''---\<newline>'', str ''![logo]() <img src=\"/x.png\">\<newline>'')"
    by (simp add: eval_defs)
  have ni: "\<not> has_image [str ''---\<newline>'', str ''title: Hello\<newline>'']"
    by (simp add: eval_defs)
  have fm: "[str ''---\<newline>'', str ''title: Hello\<newline>''] = [str ''---\<newline>''] @ str ''title: Hello\<newline>'' # []"
    by simp
  have t: "is_title (str ''title: Hello\<newline>'')"
    by (simp add: eval_defs)
  have a: "\<forall>l \<in> set [str ''---\<newline>'']. \<not> is_title l"
    by (simp add: eval_defs)
  have e: "md_search (str ''![logo]() <img src=\"/x.png\">\<newline>'') = Some []"
    by (simp add: eval_defs)
  from empty_url_gives_default [OF p ni fm t a e, THEN conjunct2, THEN conjunct2]
  show ?thesis by (simp add: str_def LF_def)
qed

end
